theory Spec2Isabelle
  imports Main
begin

section \<open>Strings\<close>

text \<open>
  A Python string is the list of its Unicode code points. \<open>lit\<close> embeds an ASCII literal.
  The white space that \<open>str.strip()\<close> removes is the set of CPython 3 (the characters
  for which \<open>str.isspace\<close> holds). The case tables of the Unicode character database are
  not part of the repository: \<open>str.lower()\<close> is CPython's algorithm over a table
  \<open>to_lower_full\<close> (one character may lower to several) and the predicates \<open>cased\<close> and
  \<open>case_ignorable\<close> that decide the final form of a capital sigma, all three taken as
  parameters.
\<close>

type_synonym str = "nat list"

definition lit :: "string \<Rightarrow> str" where
  "lit cs = map of_char cs"

definition isspace :: "nat \<Rightarrow> bool" where
  \<comment> \<open>U+0009..000D, U+001C..0020, U+0085, U+00A0, U+1680, U+2000..200A, U+2028, U+2029,
     U+202F, U+205F, U+3000.\<close>
  "isspace c =
     ((9 \<le> c \<and> c \<le> 13) \<or> (28 \<le> c \<and> c \<le> 32) \<or> c = 133 \<or> c = 160 \<or> c = 5760
      \<or> (8192 \<le> c \<and> c \<le> 8202) \<or> c = 8232 \<or> c = 8233 \<or> c = 8239 \<or> c = 8287
      \<or> c = 12288)"

definition strip :: "str \<Rightarrow> str" where
  "strip s = rev (dropWhile isspace (rev (dropWhile isspace s)))"

record ucd =
  to_lower_full :: "nat \<Rightarrow> str"
  cased :: "nat \<Rightarrow> bool"
  case_ignorable :: "nat \<Rightarrow> bool"

definition final_sigma :: "ucd \<Rightarrow> str \<Rightarrow> str \<Rightarrow> bool" where
  \<comment> \<open>\<open>handle_capital_sigma\<close>: a cased character precedes and none follows, case-ignorable
     characters skipped on both sides.\<close>
  "final_sigma u prev rest =
     ((case dropWhile (case_ignorable u) (rev prev) of [] \<Rightarrow> False | c # cs \<Rightarrow> cased u c)
      \<and> (case dropWhile (case_ignorable u) rest of [] \<Rightarrow> True | c # cs \<Rightarrow> \<not> cased u c))"

fun lower_from :: "ucd \<Rightarrow> str \<Rightarrow> str \<Rightarrow> str" where
  "lower_from u prev [] = []"
| "lower_from u prev (c # rest) =
     (if c = 931 then [if final_sigma u prev rest then 962 else 963]
      else to_lower_full u c)
     @ lower_from u (prev @ [c]) rest"

definition lower :: "ucd \<Rightarrow> str \<Rightarrow> str" where
  "lower u s = lower_from u [] s"

definition startswith :: "str \<Rightarrow> str \<Rightarrow> bool" where
  "startswith s pre = (take (length pre) s = pre)"

definition ascii_ucd :: ucd where
  \<comment> \<open>The tables on the ASCII characters, every other character left as it is; for examples.\<close>
  "ascii_ucd =
     \<lparr>to_lower_full = (\<lambda>c. [if 65 \<le> c \<and> c \<le> 90 then c + 32 else c]),
      cased = (\<lambda>c. (65 \<le> c \<and> c \<le> 90) \<or> (97 \<le> c \<and> c \<le> 122)),
      case_ignorable = (\<lambda>c. c = 39 \<or> c = 46 \<or> c = 58 \<or> c = 94 \<or> c = 96)\<rparr>"

text \<open>
  The facts about the case tables that idempotence rests on: every character that a
  lower-casing produces is its own lower case and is not the capital sigma; so are the two
  small sigmas and the full stop; and a character that is not white space lowers to a
  non-empty string that neither starts nor ends with white space.
\<close>

definition lowercase_table :: "ucd \<Rightarrow> bool" where
  "lowercase_table u \<longleftrightarrow>
     (\<forall>c. c \<noteq> 931 \<longrightarrow> (\<forall>d \<in> set (to_lower_full u c). d \<noteq> 931 \<and> to_lower_full u d = [d]))
     \<and> to_lower_full u 962 = [962] \<and> to_lower_full u 963 = [963] \<and> to_lower_full u 46 = [46]
     \<and> (\<forall>c. c \<noteq> 931 \<and> \<not> isspace c \<longrightarrow>
            to_lower_full u c \<noteq> [] \<and> \<not> isspace (hd (to_lower_full u c))
            \<and> \<not> isspace (last (to_lower_full u c)))"

definition lowered :: "ucd \<Rightarrow> nat \<Rightarrow> bool" where
  \<comment> \<open>A character that \<open>lower\<close> leaves as it is, whatever surrounds it.\<close>
  "lowered u c \<longleftrightarrow> c \<noteq> 931 \<and> to_lower_full u c = [c]"

section \<open>Extension index\<close>

definition normalize_extension :: "ucd \<Rightarrow> str \<Rightarrow> str" where
  "normalize_extension u ext0 =
     (let ext = lower u (strip ext0) in
      if ext = [] then []
      else if \<not> startswith ext (lit ''.'') then lit ''.'' @ ext
      else ext)"

definition build_extension_map :: "ucd \<Rightarrow> (str \<times> str list) list \<Rightarrow> (str \<rightharpoonup> str)" where
  \<comment> \<open>The mapping is a Python dict, iterated in insertion order: an association list.\<close>
  "build_extension_map u mappings =
     foldl (\<lambda>ext_map (folder, extensions).
              foldl (\<lambda>ext_map ext. ext_map(normalize_extension u ext \<mapsto> folder)) ext_map extensions)
           Map.empty mappings"

definition DEFAULT_MAPPINGS :: "(str \<times> str list) list" where
  "DEFAULT_MAPPINGS = map (\<lambda>(folder, extensions). (lit folder, map lit extensions))
     [(''Images'', [''jpg'', ''jpeg'', ''png'', ''gif'', ''webp'', ''tiff'', ''svg'', ''heic'']),
      (''Videos'', [''mp4'', ''mov'', ''mkv'', ''avi'', ''webm'']),
      (''Audio'', [''mp3'', ''wav'', ''m4a'', ''flac'', ''aac'', ''ogg'']),
      (''Documents'', [''pdf'', ''doc'', ''docx'', ''txt'', ''rtf'', ''odt'', ''pages'', ''md'']),
      (''Spreadsheets'', [''xls'', ''xlsx'', ''csv'', ''ods'']),
      (''Presentations'', [''ppt'', ''pptx'', ''key'']),
      (''Archives'', [''zip'', ''rar'', ''7z'', ''tar'', ''gz'', ''bz2'', ''tar.gz'', ''tar.bz2'']),
      (''Code'', [''py'', ''js'', ''ts'', ''json'', ''yml'', ''yaml'', ''toml'', ''html'', ''css'',
                  ''sh'', ''go'', ''rs'']),
      (''Installers'', [''dmg'', ''pkg'', ''app'', ''exe'', ''msi'']),
      (''Fonts'', [''ttf'', ''otf'', ''woff'', ''woff2''])]"

definition TRANSIENT_EXTENSIONS :: "str set" where
  "TRANSIENT_EXTENSIONS =
     {lit ''.download'', lit ''.crdownload'', lit ''.part'', lit ''.partial'', lit ''.tmp''}"

definition SKIP_NAMES :: "str set" where
  "SKIP_NAMES = {lit ''.DS_Store''}"

section \<open>Paths\<close>

text \<open>
  A path is the list of its parts, as \<open>PurePosixPath.parts\<close> gives them: an absolute path
  starts with the part \<open>/\<close>, and the empty list is the current directory. The
  attributes follow \<open>pathlib\<close> of CPython 3.8 to 3.13. Paths are compared part by part, so
  they are taken without symbolic links and without \<open>..\<close> parts.
\<close>

type_synonym path = "str list"

fun split_on :: "nat \<Rightarrow> str \<Rightarrow> str list" where
  "split_on sep [] = [[]]"
| "split_on sep (c # cs) =
     (if c = sep then [] # split_on sep cs
      else (c # hd (split_on sep cs)) # tl (split_on sep cs))"

definition joinpath :: "path \<Rightarrow> str \<Rightarrow> path" where
  \<comment> \<open>\<open>p / s\<close>: the parts of \<open>s\<close> are appended; an absolute \<open>s\<close> replaces \<open>p\<close>.\<close>
  "joinpath p s =
     (let parts = filter (\<lambda>x. x \<noteq> [] \<and> x \<noteq> lit ''.'') (split_on 47 s) in
      if startswith s (lit ''/'') then lit ''/'' # parts else p @ parts)"

definition Path :: "str \<Rightarrow> path" where
  "Path s = joinpath [] s"

definition name :: "path \<Rightarrow> str" where
  "name p = (if p = [] \<or> p = [lit ''/''] then [] else last p)"

definition parent :: "path \<Rightarrow> path" where
  "parent p = (if p = [] \<or> p = [lit ''/''] then p else butlast p)"

definition rfind :: "str \<Rightarrow> nat \<Rightarrow> int" where
  \<comment> \<open>The index of the last occurrence, or \<open>-1\<close>.\<close>
  "rfind s c =
     (if c \<in> set s then int (length s) - 1 - int (length (takeWhile (\<lambda>x. x \<noteq> c) (rev s)))
      else - 1)"

definition suffix :: "path \<Rightarrow> str" where
  "suffix p =
     (let i = rfind (name p) 46 in
      if 0 < i \<and> i < int (length (name p)) - 1 then drop (nat i) (name p) else [])"

definition stem :: "path \<Rightarrow> str" where
  "stem p =
     (let i = rfind (name p) 46 in
      if 0 < i \<and> i < int (length (name p)) - 1 then take (nat i) (name p) else name p)"

definition suffixes :: "path \<Rightarrow> str list" where
  "suffixes p =
     (if name p \<noteq> [] \<and> last (name p) = 46 then []
      else map (\<lambda>s. lit ''.'' @ s) (tl (split_on 46 (dropWhile (\<lambda>c. c = 46) (name p)))))"

section \<open>Classifier\<close>

definition extension_candidates :: "ucd \<Rightarrow> path \<Rightarrow> str list" where
  "extension_candidates u path =
     (let sfx = map (lower u) (suffixes path) in
      if sfx = [] then [[]]
      else map (\<lambda>i. concat (drop i sfx)) [0..<length sfx])"

fun first_match :: "ucd \<Rightarrow> (str \<rightharpoonup> str) \<Rightarrow> str list \<Rightarrow> str option" where
  \<comment> \<open>The \<open>for\<close> loop of \<open>_decide_folder\<close>: the category of the first candidate in the index.\<close>
  "first_match u ext_map [] = None"
| "first_match u ext_map (candidate # rest) =
     (let normalized = normalize_extension u candidate in
      case ext_map normalized of
        Some folder \<Rightarrow> Some folder
      | None \<Rightarrow> first_match u ext_map rest)"

definition decide_folder :: "ucd \<Rightarrow> path \<Rightarrow> (str \<rightharpoonup> str) \<Rightarrow> str \<Rightarrow> str" where
  \<comment> \<open>\<open>sorted(candidates, key=len, reverse=True)\<close> is stable: a stable sort on the negated length.\<close>
  "decide_folder u path ext_map other =
     (case first_match u ext_map
             (sort_key (\<lambda>c. - int (length c)) (extension_candidates u path)) of
        Some folder \<Rightarrow> folder
      | None \<Rightarrow> (case ext_map [] of Some folder \<Rightarrow> folder | None \<Rightarrow> other))"

section \<open>Configuration and file system\<close>

text \<open>
  Times (the clock, modification times, the minimum age) are values of a type \<open>'t\<close> with
  a subtraction and a comparison, which stand for those of Python floats; nothing else is
  assumed of them.
\<close>

record 't Config =
  downloads_dir :: path
  mappings :: "(str \<times> str list) list"
  other_folder :: str
  scan_existing :: bool
  watch :: bool
  poll_interval_seconds :: 't
  min_age_seconds :: 't
  ignore_hidden :: bool
  dry_run :: bool

text \<open>
  The state the program runs in: the nodes of the file system with their modification
  times, the paths that the operating system refuses to create, rename or delete
  (\<open>EACCES\<close>, \<open>EPERM\<close>, \<open>EROFS\<close>), and the clock. Reading is never refused. Calls are
  sequential: nothing else changes the state between two steps of one call.
\<close>

datatype 't node = File 't | Dir 't

record 't world =
  nodes :: "path \<rightharpoonup> 't node"
  denied :: "path set"
  now :: 't

datatype error =
  FileNotFoundError | FileExistsError | NotADirectoryError | IsADirectoryError
  | PermissionError | ShutilError

fun mtime :: "'t node \<Rightarrow> 't" where
  "mtime (File t) = t"
| "mtime (Dir t) = t"

definition path_exists :: "'t world \<Rightarrow> path \<Rightarrow> bool" where
  "path_exists w p = (nodes w p \<noteq> None)"

definition is_file :: "'t world \<Rightarrow> path \<Rightarrow> bool" where
  "is_file w p = (case nodes w p of Some (File t) \<Rightarrow> True | _ \<Rightarrow> False)"

definition is_dir :: "'t world \<Rightarrow> path \<Rightarrow> bool" where
  "is_dir w p = (case nodes w p of Some (Dir t) \<Rightarrow> True | _ \<Rightarrow> False)"

definition stat_mtime :: "'t world \<Rightarrow> path \<Rightarrow> error + 't" where
  "stat_mtime w p = (case nodes w p of None \<Rightarrow> Inl FileNotFoundError | Some n \<Rightarrow> Inr (mtime n))"

definition os_mkdir :: "'t world \<Rightarrow> path \<Rightarrow> error + 't world" where
  "os_mkdir w p =
     (if \<not> path_exists w (parent p) then Inl FileNotFoundError
      else if \<not> is_dir w (parent p) then Inl NotADirectoryError
      else if path_exists w p then Inl FileExistsError
      else if p \<in> denied w then Inl PermissionError
      else Inr (w\<lparr>nodes := (nodes w)(p \<mapsto> Dir (now w))\<rparr>))"

function mkdir :: "bool \<Rightarrow> 't world \<Rightarrow> path \<Rightarrow> (error + unit) \<times> 't world" where
  \<comment> \<open>\<open>Path.mkdir(parents=parents, exist_ok=True)\<close>; the state is returned also when it raises.\<close>
  "mkdir parents w p =
     (case os_mkdir w p of
        Inr w' \<Rightarrow> (Inr (), w')
      | Inl e \<Rightarrow>
          if e = FileNotFoundError then
            (if \<not> parents \<or> parent p = p then (Inl e, w)
             else (case mkdir True w (parent p) of
                     (Inl e', w') \<Rightarrow> (Inl e', w')
                   | (Inr x, w') \<Rightarrow> mkdir False w' p))
          else if is_dir w p then (Inr (), w)
          else (Inl e, w))"
  by pat_completeness auto
termination
  by (relation "measure (\<lambda>(parents, w, p). 2 * length p + (if parents then 1 else 0))")
     (auto simp: parent_def split: if_splits)

definition adds_directories :: "'t world \<Rightarrow> 't world \<Rightarrow> bool" where
  \<comment> \<open>The second state is the first one with new directories and nothing else changed.\<close>
  "adds_directories w w' \<longleftrightarrow>
     denied w' = denied w \<and> now w' = now w
     \<and> (\<forall>q. nodes w q \<noteq> None \<longrightarrow> nodes w' q = nodes w q)
     \<and> (\<forall>q. nodes w q = None \<longrightarrow> nodes w' q = None \<or> (\<exists>t. nodes w' q = Some (Dir t)))
     \<and> (finite (dom (nodes w)) \<longrightarrow> finite (dom (nodes w')))"

definition os_rename :: "'t world \<Rightarrow> path \<Rightarrow> path \<Rightarrow> error + 't world" where
  \<comment> \<open>Of a regular file: the entries of a directory are not carried along.\<close>
  "os_rename w src dst =
     (case nodes w src of
        None \<Rightarrow> Inl FileNotFoundError
      | Some n \<Rightarrow>
          if \<not> path_exists w (parent dst) then Inl FileNotFoundError
          else if \<not> is_dir w (parent dst) then Inl NotADirectoryError
          else if src \<in> denied w \<or> dst \<in> denied w then Inl PermissionError
          else if is_dir w dst then Inl IsADirectoryError
          else Inr (w\<lparr>nodes := (nodes w)(src := None, dst \<mapsto> n)\<rparr>))"

definition copy2 :: "'t world \<Rightarrow> path \<Rightarrow> path \<Rightarrow> error + 't world" where
  \<comment> \<open>\<open>shutil.copy2\<close> to a path that is not a directory: the copy keeps the modification time.\<close>
  "copy2 w src dst =
     (case nodes w src of
        None \<Rightarrow> Inl FileNotFoundError
      | Some (Dir t) \<Rightarrow> Inl IsADirectoryError
      | Some (File t) \<Rightarrow>
          if \<not> path_exists w (parent dst) then Inl FileNotFoundError
          else if \<not> is_dir w (parent dst) then Inl NotADirectoryError
          else if is_dir w dst then Inl IsADirectoryError
          else if dst \<in> denied w then Inl PermissionError
          else Inr (w\<lparr>nodes := (nodes w)(dst \<mapsto> File t)\<rparr>))"

definition os_unlink :: "'t world \<Rightarrow> path \<Rightarrow> error + 't world" where
  "os_unlink w p =
     (case nodes w p of
        None \<Rightarrow> Inl FileNotFoundError
      | Some (Dir t) \<Rightarrow> Inl IsADirectoryError
      | Some (File t) \<Rightarrow>
          if p \<in> denied w then Inl PermissionError
          else Inr (w\<lparr>nodes := (nodes w)(p := None)\<rparr>))"

definition shutil_move :: "'t world \<Rightarrow> path \<Rightarrow> path \<Rightarrow> (error + path) \<times> 't world" where
  \<comment> \<open>\<open>shutil.move\<close> of a regular file: a rename, and a copy and delete when the rename
     fails. The state is returned also when it raises.\<close>
  "shutil_move w src dst =
     (let real_dst = (if is_dir w dst then dst @ [name src] else dst) in
      if is_dir w dst \<and> path_exists w real_dst then (Inl ShutilError, w)
      else (case os_rename w src real_dst of
              Inr w' \<Rightarrow> (Inr real_dst, w')
            | Inl e \<Rightarrow>
                (case copy2 w src real_dst of
                   Inl e' \<Rightarrow> (Inl e', w)
                 | Inr w1 \<Rightarrow>
                     (case os_unlink w1 src of
                        Inl e' \<Rightarrow> (Inl e', w1)
                      | Inr w2 \<Rightarrow> (Inr real_dst, w2)))))"

section \<open>Settling filter\<close>

definition should_skip ::
  "ucd \<Rightarrow> ('t::{minus,ord}) world \<Rightarrow> path \<Rightarrow> 't Config \<Rightarrow> error + bool" where
  \<comment> \<open>Only \<open>FileNotFoundError\<close> is caught around \<open>stat\<close>; any other error goes to the caller.\<close>
  "should_skip u w path config =
     (if name path \<in> SKIP_NAMES then Inr True
      else if ignore_hidden config \<and> startswith (name path) (lit ''.'') then Inr True
      else if lower u (suffix path) \<in> TRANSIENT_EXTENSIONS then Inr True
      else if \<not> is_file w path then Inr True
      else (case stat_mtime w path of
              Inl e \<Rightarrow> if e = FileNotFoundError then Inr True else Inl e
            | Inr t \<Rightarrow> (let age = now w - t in Inr (age < min_age_seconds config))))"

section \<open>Destination resolver\<close>

fun str :: "nat \<Rightarrow> str" where
  \<comment> \<open>The decimal digits of a number, as \<open>f"{index}"\<close> writes them.\<close>
  "str n = (if n < 10 then [48 + n] else str (n div 10) @ [48 + n mod 10])"

partial_function (option) probe :: "'t world \<Rightarrow> path \<Rightarrow> str \<Rightarrow> str \<Rightarrow> nat \<Rightarrow> path option" where
  \<comment> \<open>The \<open>while True\<close> loop; \<open>None\<close> when it never returns.\<close>
  "probe w dest_dir stm sfx index =
     (if \<not> path_exists w (joinpath dest_dir (stm @ lit ''-'' @ str index @ sfx))
      then Some (joinpath dest_dir (stm @ lit ''-'' @ str index @ sfx))
      else probe w dest_dir stm sfx (index + 1))"

definition resolve_destination :: "'t world \<Rightarrow> path \<Rightarrow> str \<Rightarrow> path option" where
  "resolve_destination w dest_dir filename =
     (if \<not> path_exists w (joinpath dest_dir filename) then Some (joinpath dest_dir filename)
      else probe w dest_dir (stem (Path filename)) (concat (suffixes (Path filename))) 1)"

section \<open>Mover\<close>

definition organize_file ::
  "ucd \<Rightarrow> ('t::{minus,ord}) world \<Rightarrow> path \<Rightarrow> 't Config \<Rightarrow> (str \<rightharpoonup> str)
     \<Rightarrow> ((error + path option) \<times> 't world) option" where
  \<comment> \<open>The result and the state when the call ends; \<open>Inl\<close> is an exception that reaches the
     caller, and \<open>None\<close> a call that never returns. Console output is left out.\<close>
  "organize_file u w path config ext_map =
     (case should_skip u w path config of
        Inl e \<Rightarrow> Some (Inl e, w)
      | Inr True \<Rightarrow> Some (Inr None, w)
      | Inr False \<Rightarrow>
          (let folder_name = decide_folder u path ext_map (other_folder config);
               dest_dir = joinpath (downloads_dir config) folder_name
           in case (if \<not> path_exists w dest_dir then mkdir True w dest_dir else (Inr (), w)) of
                (Inl e, w1) \<Rightarrow> Some (Inl e, w1)
              | (Inr x, w1) \<Rightarrow>
                  (case resolve_destination w1 dest_dir (name path) of
                     None \<Rightarrow> None
                   | Some destination \<Rightarrow>
                       if destination = path then Some (Inr None, w1)
                       else if dry_run config then Some (Inr (Some destination), w1)
                       else (case shutil_move w1 path destination of
                               (Inr d, w2) \<Rightarrow> Some (Inr (Some destination), w2)
                             | (Inl e, w2) \<Rightarrow> Some (Inr None, w2)))))"

section \<open>States and configurations of the examples\<close>

text \<open>Times are whole seconds in the examples.\<close>

definition example_config :: "int Config" where
  "example_config =
     \<lparr>downloads_dir = [lit ''/'', lit ''dl''],
      mappings = [(lit ''Documents'', [lit ''pdf'']), (lit ''Archives'', [lit ''tar.gz''])],
      other_folder = lit ''Other'', scan_existing = True, watch = True,
      poll_interval_seconds = 3, min_age_seconds = 3, ignore_hidden = True, dry_run = False\<rparr>"

definition example_index :: "str \<rightharpoonup> str" where
  "example_index = build_extension_map ascii_ucd (mappings example_config)"

definition one_file_state :: "str \<Rightarrow> path set \<Rightarrow> int \<Rightarrow> int world" where
  \<comment> \<open>The downloads directory with one file in it, last modified at time 100.\<close>
  "one_file_state filename refused t =
     \<lparr>nodes = [[lit ''/''] \<mapsto> Dir 0, [lit ''/'', lit ''dl''] \<mapsto> Dir 0,
               [lit ''/'', lit ''dl'', filename] \<mapsto> File 100],
      denied = refused, now = t\<rparr>"

definition archive_state :: "int world" where
  \<comment> \<open>The category directory already holds \<open>a.tar.gz\<close>.\<close>
  "archive_state =
     \<lparr>nodes = [[lit ''/''] \<mapsto> Dir 0, [lit ''/'', lit ''dl''] \<mapsto> Dir 0,
               [lit ''/'', lit ''dl'', lit ''Archives''] \<mapsto> Dir 0,
               [lit ''/'', lit ''dl'', lit ''Archives'', lit ''a.tar.gz''] \<mapsto> File 100],
      denied = {}, now = 200\<rparr>"

definition crowded :: "nat \<Rightarrow> int world" where
  \<comment> \<open>A directory that holds \<open>photo.jpg\<close> and \<open>photo-1.jpg\<close> to \<open>photo-n.jpg\<close>.\<close>
  "crowded n =
     \<lparr>nodes = (\<lambda>p. if p = [lit ''Images''] then Some (Dir 0)
                    else if p = [lit ''Images'', lit ''photo.jpg'']
                            \<or> (\<exists>k \<in> {1..n}. p = [lit ''Images'', lit ''photo-'' @ str k @ lit ''.jpg''])
                         then Some (File 0)
                    else None),
      denied = {}, now = 0\<rparr>"

declare str.simps [simp del]
declare mkdir.simps [simp del]

section \<open>Properties of the string functions\<close>

lemma dropWhile_unchanged: "xs = [] \<or> \<not> P (hd xs) \<Longrightarrow> dropWhile P xs = xs"
  by (cases xs) auto

lemma last_dropWhile_nonempty: "dropWhile P xs \<noteq> [] \<Longrightarrow> last (dropWhile P xs) = last xs"
  by (induction xs) (auto split: if_splits)

lemma strip_fixed:
  assumes "t = [] \<or> (\<not> isspace (hd t) \<and> \<not> isspace (last t))"
  shows "strip t = t"
proof (cases "t = []")
  case True
  then show ?thesis by (simp add: strip_def)
next
  case False
  with assms have h: "\<not> isspace (hd t)" and l: "\<not> isspace (last t)" by auto
  have "dropWhile isspace t = t" using h by (simp add: dropWhile_unchanged)
  moreover have "dropWhile isspace (rev t) = rev t"
    using l False by (simp add: dropWhile_unchanged hd_rev)
  ultimately show ?thesis by (simp add: strip_def)
qed

lemma strip_ends:
  "strip s = [] \<or> (\<not> isspace (hd (strip s)) \<and> \<not> isspace (last (strip s)))"
proof (cases "strip s = []")
  case True
  then show ?thesis by simp
next
  case False
  define a where "a = dropWhile isspace s"
  define b where "b = dropWhile isspace (rev a)"
  have sb: "strip s = rev b" by (simp add: strip_def a_def b_def)
  with False have b: "b \<noteq> []" by simp
  then have a: "a \<noteq> []" by (auto simp: b_def)
  have "\<not> isspace (hd b)" using b unfolding b_def by (rule hd_dropWhile)
  then have l: "\<not> isspace (last (strip s))" using b by (simp add: sb last_rev)
  have "last b = last (rev a)" using b unfolding b_def by (rule last_dropWhile_nonempty)
  also have "\<dots> = hd a" using a by (simp add: last_rev)
  finally have "hd (strip s) = hd a" using b by (simp add: sb hd_rev)
  moreover have "\<not> isspace (hd a)" using a unfolding a_def by (rule hd_dropWhile)
  ultimately show ?thesis using l by simp
qed

lemma strip_idem: "strip (strip s) = strip s"
  by (rule strip_fixed) (rule strip_ends)

lemma lowercase_table_produces:
  "lowercase_table u \<Longrightarrow> c \<noteq> 931 \<Longrightarrow> d \<in> set (to_lower_full u c) \<Longrightarrow> lowered u d"
  unfolding lowercase_table_def lowered_def by blast

lemma lowercase_table_fixed:
  "lowercase_table u \<Longrightarrow> lowered u 962 \<and> lowered u 963 \<and> lowered u 46"
  unfolding lowercase_table_def lowered_def by simp

lemma lowercase_table_ends:
  "lowercase_table u \<Longrightarrow> c \<noteq> 931 \<Longrightarrow> \<not> isspace c \<Longrightarrow>
     to_lower_full u c \<noteq> [] \<and> \<not> isspace (hd (to_lower_full u c))
     \<and> \<not> isspace (last (to_lower_full u c))"
  unfolding lowercase_table_def by blast

lemma lower_from_lowered:
  "\<forall>c \<in> set s. lowered u c \<Longrightarrow> lower_from u prev s = s"
  by (induction s arbitrary: prev) (auto simp: lowered_def)

lemma lower_from_gives_lowered:
  assumes "lowercase_table u"
  shows "\<forall>d \<in> set (lower_from u prev s). lowered u d"
proof (induction s arbitrary: prev)
  case Nil
  then show ?case by simp
next
  case (Cons c s)
  note sig = lowercase_table_fixed[OF assms]
  show ?case
  proof (cases "c = 931")
    case True
    then show ?thesis using Cons.IH sig by auto
  next
    case False
    then have "\<forall>d \<in> set (to_lower_full u c). lowered u d"
      using lowercase_table_produces[OF assms] by blast
    with False show ?thesis using Cons.IH by auto
  qed
qed

lemma lower_idem:
  assumes "lowercase_table u"
  shows "lower u (lower u s) = lower u s"
  unfolding lower_def
  by (rule lower_from_lowered) (rule lower_from_gives_lowered[OF assms])

lemma lower_from_nonempty_hd:
  assumes "lowercase_table u" and "\<not> isspace c"
  shows "lower_from u prev (c # s) \<noteq> []
         \<and> \<not> isspace (hd (lower_from u prev (c # s)))"
proof (cases "c = 931")
  case True
  then show ?thesis by (simp add: isspace_def)
next
  case False
  with assms have "to_lower_full u c \<noteq> [] \<and> \<not> isspace (hd (to_lower_full u c))"
    using lowercase_table_ends by blast
  with False show ?thesis by simp
qed

lemma lower_from_snoc:
  "\<exists>zs. lower_from u prev (s @ [c]) =
     zs @ (if c = 931 then [if final_sigma u (prev @ s) [] then 962 else 963]
           else to_lower_full u c)"
proof (induction s arbitrary: prev)
  case Nil
  show ?case by simp
next
  case (Cons a s)
  from Cons.IH[of "prev @ [a]"] obtain zs where
    "lower_from u (prev @ [a]) (s @ [c]) =
       zs @ (if c = 931 then [if final_sigma u ((prev @ [a]) @ s) [] then 962 else 963]
             else to_lower_full u c)" ..
  then show ?case by simp
qed

lemma lower_from_last:
  assumes "lowercase_table u" and "\<not> isspace c"
  shows "\<not> isspace (last (lower_from u prev (s @ [c])))"
proof -
  obtain zs where z: "lower_from u prev (s @ [c]) =
     zs @ (if c = 931 then [if final_sigma u (prev @ s) [] then 962 else 963]
           else to_lower_full u c)"
    using lower_from_snoc by blast
  show ?thesis
  proof (cases "c = 931")
    case True
    with z have "last (lower_from u prev (s @ [c])) = 962 \<or> last (lower_from u prev (s @ [c])) = 963"
      by simp
    then show ?thesis by (auto simp: isspace_def)
  next
    case False
    with assms have "to_lower_full u c \<noteq> [] \<and> \<not> isspace (last (to_lower_full u c))"
      using lowercase_table_ends by blast
    with False show ?thesis by (simp add: z)
  qed
qed

lemma lower_keeps_ends:
  assumes "lowercase_table u" and "t \<noteq> []" and "\<not> isspace (hd t)" and "\<not> isspace (last t)"
  shows "lower u t \<noteq> [] \<and> \<not> isspace (hd (lower u t)) \<and> \<not> isspace (last (lower u t))"
proof -
  obtain c s where t: "t = c # s" using assms(2) by (cases t) auto
  obtain s' c' where t': "t = s' @ [c']" using assms(2) by (cases t rule: rev_cases) auto
  have "lower u t \<noteq> [] \<and> \<not> isspace (hd (lower u t))"
    unfolding lower_def t using assms(1,3) by (intro lower_from_nonempty_hd) (simp_all add: t)
  moreover have "\<not> isspace (last (lower u t))"
    unfolding lower_def t' using assms(1,4) by (intro lower_from_last) (simp_all add: t')
  ultimately show ?thesis by simp
qed

lemma lower_empty: "lower u [] = []"
  by (simp add: lower_def)

lemma normalize_extension_unfold:
  "normalize_extension u s =
     (if lower u (strip s) = [] then []
      else if hd (lower u (strip s)) \<noteq> 46 then 46 # lower u (strip s)
      else lower u (strip s))"
  by (cases "lower u (strip s)")
     (simp_all add: normalize_extension_def startswith_def Let_def lit_def)

lemma normalize_extension_empty: "normalize_extension u [] = []"
  by (simp add: normalize_extension_def strip_def lower_def)

lemma normalize_extension_fixed:
  assumes "r \<noteq> []" "hd r = 46" "strip r = r" "lower u r = r"
  shows "normalize_extension u r = r"
  using assms
  by (simp only: normalize_extension_unfold[of u r] if_False not_True_eq_False simp_thms)

text \<open>
  Claim C10. Extension normalisation is idempotent: normalising an already normalised
  extension changes nothing, for every string.
\<close>

theorem normalize_extension_idempotent:
  assumes "lowercase_table u"
  shows "normalize_extension u (normalize_extension u s) = normalize_extension u s"
proof -
  define t where "t = strip s"
  define e where "e = lower u t"
  have n: "normalize_extension u s =
      (if e = [] then [] else if hd e \<noteq> 46 then 46 # e else e)"
    unfolding e_def t_def by (rule normalize_extension_unfold)
  have le: "lower u e = e" unfolding e_def using assms by (rule lower_idem)
  have low: "\<forall>d \<in> set e. lowered u d"
    unfolding e_def lower_def using assms by (rule lower_from_gives_lowered)
  have dot: "\<not> isspace 46" by (simp add: isspace_def)
  have ldot: "lowered u 46" using lowercase_table_fixed[OF assms] by blast
  show ?thesis
  proof (cases "e = []")
    case True
    then have "normalize_extension u s = []" by (simp only: n if_True simp_thms)
    then show ?thesis by (simp only: normalize_extension_empty)
  next
    case False
    then have tne: "t \<noteq> []" by (auto simp: e_def lower_empty)
    then have "\<not> isspace (hd t) \<and> \<not> isspace (last t)"
      using strip_ends[of s] by (simp add: t_def)
    then have ends: "\<not> isspace (hd e) \<and> \<not> isspace (last e)"
      unfolding e_def using lower_keeps_ends[OF assms tne] by simp
    then have se: "strip e = e" by (intro strip_fixed) simp
    show ?thesis
    proof (cases "hd e = 46")
      case True
      with False have r: "normalize_extension u s = e" by (simp only: n if_False simp_thms)
      have "normalize_extension u e = e"
        using False True se le by (rule normalize_extension_fixed)
      then show ?thesis by (simp only: r)
    next
      case nodot: False
      with False have r: "normalize_extension u s = 46 # e"
        by (simp only: n if_False if_True simp_thms)
      have "strip (46 # e) = 46 # e"
        by (rule strip_fixed) (use False ends dot in simp)
      moreover have "lower u (46 # e) = 46 # e"
        unfolding lower_def by (rule lower_from_lowered) (use low ldot in simp)
      ultimately have "normalize_extension u (46 # e) = 46 # e"
        by (intro normalize_extension_fixed) simp_all
      then show ?thesis by (simp only: r)
    qed
  qed
qed

lemma lowercase_table_ascii: "lowercase_table ascii_ucd"
  by (auto simp: lowercase_table_def ascii_ucd_def isspace_def)

lemmas string_eval = lit_def isspace_def strip_def lower_def final_sigma_def ascii_ucd_def
  startswith_def normalize_extension_def

theorem normalize_extension_idempotent_witness:
  "lowercase_table ascii_ucd
   \<and> normalize_extension ascii_ucd ([160] @ lit ''  Tar.GZ '') = lit ''.tar.gz''
   \<and> normalize_extension ascii_ucd (normalize_extension ascii_ucd ([160] @ lit ''  Tar.GZ ''))
       = lit ''.tar.gz''"
proof -
  have a: "normalize_extension ascii_ucd ([160] @ lit ''  Tar.GZ '') = lit ''.tar.gz''"
    by (simp add: string_eval)
  show ?thesis
    using normalize_extension_idempotent [OF lowercase_table_ascii, of "[160] @ lit ''  Tar.GZ ''"]
          lowercase_table_ascii a
    by simp
qed

section \<open>Properties of the classifier\<close>

lemma split_on_no_sep: "sep \<notin> set s \<Longrightarrow> split_on sep s = [s]"
  by (induction s) auto

lemma split_on_first: "sep \<notin> set s \<Longrightarrow> split_on sep (s @ sep # r) = s # split_on sep r"
  by (induction s) auto

lemma suffixes_no_dot:
  assumes "46 \<notin> set (name p)"
  shows "suffixes p = []"
proof -
  have a: "\<not> (name p \<noteq> [] \<and> last (name p) = 46)"
    using assms last_in_set by metis
  have "dropWhile (\<lambda>c. c = 46) (name p) = name p"
    using assms by (cases "name p") auto
  then show ?thesis
    using a assms by (simp add: suffixes_def split_on_no_sep)
qed

lemma suffixes_two_part:
  \<comment> \<open>The suffixes of a name \<open>s.a.b\<close>, as of \<open>archive.tar.gz\<close>.\<close>
  assumes "name p = s @ 46 # a @ 46 # b"
      and "s \<noteq> []" "b \<noteq> []" "46 \<notin> set s" "46 \<notin> set a" "46 \<notin> set b"
  shows "suffixes p = [46 # a, 46 # b]"
proof -
  have "last (name p) = last b" using assms(1,3) by simp
  then have l: "last (name p) \<noteq> 46"
    using assms(3,6) by (metis last_in_set)
  have "hd (name p) \<noteq> 46" using assms(1,2,4) by (cases s) auto
  then have d: "dropWhile (\<lambda>c. c = 46) (name p) = name p"
    by (intro dropWhile_unchanged) simp
  have "split_on 46 (name p) = [s, a, b]"
    unfolding assms(1) using assms(4,5,6) by (simp add: split_on_first split_on_no_sep)
  then show ?thesis using l d by (simp add: suffixes_def lit_def)
qed

lemma length_concat_drop_mono:
  assumes "i \<le> j"
  shows "length (concat (drop j xs)) \<le> length (concat (drop i xs))"
proof -
  have "drop i xs = take (j - i) (drop i xs) @ drop (j - i) (drop i xs)"
    by (rule append_take_drop_id[symmetric])
  also have "drop (j - i) (drop i xs) = drop j xs" using assms by simp
  finally have "concat (drop i xs) = concat (take (j - i) (drop i xs)) @ concat (drop j xs)"
    by (metis concat_append)
  then show ?thesis by simp
qed

lemma candidates_sorted:
  "sorted (map (\<lambda>c. - int (length c)) (extension_candidates u path))"
proof (cases "map (lower u) (suffixes path) = []")
  case True
  then show ?thesis by (simp add: extension_candidates_def)
next
  case False
  then show ?thesis
    by (auto simp: extension_candidates_def Let_def sorted_iff_nth_mono length_concat_drop_mono
             simp del: length_concat)
qed

lemma sorted_candidates_unchanged:
  "sort_key (\<lambda>c. - int (length c)) (extension_candidates u path) = extension_candidates u path"
  by (rule sort_key_id_if_sorted) (rule candidates_sorted)

lemma first_match_at:
  assumes "i < length cs"
      and "ext_map (normalize_extension u (cs ! i)) = Some folder"
      and "\<forall>j<i. ext_map (normalize_extension u (cs ! j)) = None"
  shows "first_match u ext_map cs = Some folder"
  using assms
proof (induction cs arbitrary: i)
  case Nil
  then show ?case by simp
next
  case (Cons c cs)
  show ?case
  proof (cases i)
    case 0
    with Cons.prems show ?thesis by simp
  next
    case (Suc k)
    with Cons.prems have "ext_map (normalize_extension u c) = None" by auto
    moreover have "first_match u ext_map cs = Some folder"
      using Cons.prems Suc by (intro Cons.IH[of k]) auto
    ultimately show ?thesis by simp
  qed
qed

lemma candidates_of_suffixes:
  assumes "i < length (suffixes path)"
  shows "i < length (extension_candidates u path)
       \<and> extension_candidates u path ! i = concat (map (lower u) (drop i (suffixes path)))"
  using assms by (auto simp: extension_candidates_def Let_def drop_map)

lemma decide_folder_at:
  assumes "i < length (suffixes path)"
      and "ext_map (normalize_extension u (concat (map (lower u) (drop i (suffixes path)))))
             = Some folder"
      and "\<forall>j<i. ext_map (normalize_extension u (concat (map (lower u) (drop j (suffixes path)))))
             = None"
  shows "decide_folder u path ext_map other = folder"
proof -
  have a: "i < length (extension_candidates u path)"
    using candidates_of_suffixes[OF assms(1)] by simp
  have b: "ext_map (normalize_extension u (extension_candidates u path ! i)) = Some folder"
    using candidates_of_suffixes[OF assms(1)] assms(2) by simp
  have c: "\<forall>j<i. ext_map (normalize_extension u (extension_candidates u path ! j)) = None"
  proof (intro allI impI)
    fix j assume "j < i"
    then have "j < length (suffixes path)" using assms(1) by simp
    from candidates_of_suffixes[OF this] assms(3) \<open>j < i\<close>
    show "ext_map (normalize_extension u (extension_candidates u path ! j)) = None" by simp
  qed
  show ?thesis
    using first_match_at[OF a b c] by (simp add: decide_folder_def sorted_candidates_unchanged)
qed

text \<open>
  Claim C1, as amended. The candidates of a file name are the joins of its trailing
  suffixes, lower-cased, and they are tried longest first: the category is that of the
  longest candidate whose normalised form is a key of the extension index. So a compound
  suffix that is a key decides against the trailing atomic extension, and against every
  shorter compound suffix; when the full compound suffix is a key (position \<open>0\<close>) its
  category is returned.
\<close>

theorem longest_key_suffix_decides:
  assumes "i < length (suffixes path)"
      and "ext_map (normalize_extension u (concat (map (lower u) (drop i (suffixes path)))))
             = Some folder"
      and "\<forall>j<i. ext_map (normalize_extension u (concat (map (lower u) (drop j (suffixes path)))))
             = None"
  shows "decide_folder u path ext_map other = folder"
  using assms by (rule decide_folder_at)

lemma compound_suffix_of_two_part_name:
  \<comment> \<open>The case of the claim's example: a name \<open>s.a.b\<close> whose suffix \<open>.a.b\<close> is a key.\<close>
  assumes "name path = s @ 46 # a @ 46 # b"
      and "s \<noteq> []" "b \<noteq> []" "46 \<notin> set s" "46 \<notin> set a" "46 \<notin> set b"
      and "ext_map (normalize_extension u (lower u (46 # a) @ lower u (46 # b))) = Some folder"
  shows "decide_folder u path ext_map other = folder"
proof -
  have s: "suffixes path = [46 # a, 46 # b]"
    using assms(1-6) by (rule suffixes_two_part)
  show ?thesis
    by (rule decide_folder_at[where i = 0]) (use s assms(7) in simp_all)
qed

text \<open>
  Claim C8. A file name without a dot has the empty string as its only candidate; it gets
  the category of the wildcard entry (the empty extension) when the index has one, and the
  catch-all category otherwise.
\<close>

theorem no_extension_uses_wildcard:
  assumes "46 \<notin> set (name path)"
  shows "extension_candidates u path = [[]]
       \<and> decide_folder u path ext_map other
           = (case ext_map [] of Some folder \<Rightarrow> folder | None \<Rightarrow> other)"
  using suffixes_no_dot[OF assms]
  by (simp add: extension_candidates_def decide_folder_def normalize_extension_empty
           split: option.splits)

section \<open>Properties of the extension index\<close>

lemma fold_extensions:
  "foldl (\<lambda>ext_map ext. ext_map(normalize_extension u ext \<mapsto> folder)) m extensions k =
     (if k \<in> normalize_extension u ` set extensions then Some folder else m k)"
  by (induction extensions arbitrary: m) auto

lemma fold_mappings_untouched:
  assumes "\<forall>(f, es) \<in> set ms. k \<notin> normalize_extension u ` set es"
  shows "foldl (\<lambda>ext_map (folder, extensions).
            foldl (\<lambda>ext_map ext. ext_map(normalize_extension u ext \<mapsto> folder)) ext_map extensions)
          m ms k = m k"
  using assms
proof (induction ms arbitrary: m)
  case Nil
  then show ?case by simp
next
  case (Cons a ms)
  let ?inner = "\<lambda>folder ext_map ext. ext_map(normalize_extension u ext \<mapsto> folder)"
  let ?outer = "\<lambda>ext_map (folder, extensions). foldl (?inner folder) ext_map extensions"
  obtain f es where a: "a = (f, es)" by (cases a)
  from Cons.prems a have notin: "k \<notin> normalize_extension u ` set es" by auto
  from Cons.prems
  have rest: "\<forall>(f, es) \<in> set ms. k \<notin> normalize_extension u ` set es" by auto
  have "foldl ?outer m (a # ms) k = foldl ?outer (?outer m a) ms k"
    by (simp only: foldl_Cons)
  also have "\<dots> = ?outer m a k" using rest by (rule Cons.IH)
  also have "\<dots> = foldl (?inner f) m es k" by (simp only: a prod.case)
  also have "\<dots> = m k" using notin by (simp only: fold_extensions if_False)
  finally show ?case .
qed

text \<open>
  Claim C5. When an extension is listed under several categories, the index maps its
  normalised form to the category that wrote it last in the iteration order of the
  mapping: the last category that lists an extension with that normalised form. The
  construction is a total function, so the duplicate raises no error.
\<close>

theorem last_writer_wins:
  assumes "ms = earlier @ (folder, extensions) # later"
      and "ext \<in> set extensions"
      and "\<forall>(f, es) \<in> set later. normalize_extension u ext \<notin> normalize_extension u ` set es"
  shows "build_extension_map u ms (normalize_extension u ext) = Some folder"
proof -
  let ?inner = "\<lambda>folder ext_map ext. ext_map(normalize_extension u ext \<mapsto> folder)"
  let ?outer = "\<lambda>ext_map (folder, extensions). foldl (?inner folder) ext_map extensions"
  let ?k = "normalize_extension u ext"
  define m1 where "m1 = foldl ?outer Map.empty earlier"
  have isin: "?k \<in> normalize_extension u ` set extensions"
    using assms(2) by (rule imageI)
  have "build_extension_map u ms ?k = foldl ?outer (?outer m1 (folder, extensions)) later ?k"
    unfolding build_extension_map_def assms(1) m1_def by (simp only: foldl_append foldl_Cons)
  also have "\<dots> = ?outer m1 (folder, extensions) ?k"
    using assms(3) by (rule fold_mappings_untouched)
  also have "\<dots> = foldl (?inner folder) m1 extensions ?k" by (simp only: prod.case)
  also have "\<dots> = Some folder" using isin by (simp only: fold_extensions if_True)
  finally show ?thesis .
qed

lemmas path_eval = name_def parent_def suffix_def stem_def suffixes_def rfind_def joinpath_def
  Path_def

theorem longest_key_suffix_decides_counterexample:
  "suffixes [lit ''dl'', lit ''x.backup.tar.gz''] = [lit ''.backup'', lit ''.tar'', lit ''.gz'']
   \<and> build_extension_map ascii_ucd
         [(lit ''Archives'', [lit ''tar.gz'']), (lit ''Backups'', [lit ''backup.tar.gz''])]
         (lit ''.tar.gz'') = Some (lit ''Archives'')
   \<and> decide_folder ascii_ucd [lit ''dl'', lit ''x.backup.tar.gz'']
         (build_extension_map ascii_ucd
            [(lit ''Archives'', [lit ''tar.gz'']), (lit ''Backups'', [lit ''backup.tar.gz''])])
         (lit ''Other'') = lit ''Backups''
   \<and> lit ''Backups'' \<noteq> lit ''Archives''"
proof -
  let ?p = "[lit ''dl'', lit ''x.backup.tar.gz'']"
  let ?m = "build_extension_map ascii_ucd
              [(lit ''Archives'', [lit ''tar.gz'']), (lit ''Backups'', [lit ''backup.tar.gz''])]"
  have s: "suffixes ?p = [lit ''.backup'', lit ''.tar'', lit ''.gz'']"
    by (simp add: path_eval lit_def)
  have k: "?m (lit ''.tar.gz'') = Some (lit ''Archives'')"
    by (simp add: build_extension_map_def string_eval)
  have "?m (normalize_extension ascii_ucd (concat (map (lower ascii_ucd) (drop 0 (suffixes ?p)))))
          = Some (lit ''Backups'')"
    unfolding s by (simp add: build_extension_map_def string_eval)
  then have "decide_folder ascii_ucd ?p ?m (lit ''Other'') = lit ''Backups''"
    by (intro decide_folder_at[where i = 0]) (simp_all add: s)
  moreover have "lit ''Backups'' \<noteq> lit ''Archives''" by (simp add: lit_def)
  ultimately show ?thesis using s k by blast
qed

theorem longest_key_suffix_decides_witness:
  "suffixes [lit ''dl'', lit ''backup.2024.Tar.GZ''] = [lit ''.2024'', lit ''.Tar'', lit ''.GZ'']
   \<and> build_extension_map ascii_ucd
         [(lit ''Compressed'', [lit ''gz'']), (lit ''Archives'', [lit ''tar.gz''])]
         (lit ''.tar.gz'') = Some (lit ''Archives'')
   \<and> build_extension_map ascii_ucd
         [(lit ''Compressed'', [lit ''gz'']), (lit ''Archives'', [lit ''tar.gz''])]
         (lit ''.gz'') = Some (lit ''Compressed'')
   \<and> decide_folder ascii_ucd [lit ''dl'', lit ''backup.2024.Tar.GZ'']
         (build_extension_map ascii_ucd
            [(lit ''Compressed'', [lit ''gz'']), (lit ''Archives'', [lit ''tar.gz''])])
         (lit ''Other'') = lit ''Archives''"
proof -
  let ?p = "[lit ''dl'', lit ''backup.2024.Tar.GZ'']"
  let ?m = "build_extension_map ascii_ucd
              [(lit ''Compressed'', [lit ''gz'']), (lit ''Archives'', [lit ''tar.gz''])]"
  let ?key = "\<lambda>i. normalize_extension ascii_ucd
                    (concat (map (lower ascii_ucd) (drop i (suffixes ?p))))"
  have s: "suffixes ?p = [lit ''.2024'', lit ''.Tar'', lit ''.GZ'']"
    by (simp add: path_eval lit_def)
  have i: "1 < length (suffixes ?p)" by (simp add: s)
  have k1: "?m (?key 1) = Some (lit ''Archives'')"
    unfolding s by (simp add: build_extension_map_def string_eval)
  have k0: "?m (?key 0) = None"
    unfolding s by (simp add: build_extension_map_def string_eval)
  have before: "\<forall>j<1. ?m (?key j) = None" using k0 by simp
  have a: "?m (lit ''.tar.gz'') = Some (lit ''Archives'')"
    by (simp add: build_extension_map_def string_eval)
  have b: "?m (lit ''.gz'') = Some (lit ''Compressed'')"
    by (simp add: build_extension_map_def string_eval)
  show ?thesis
    using longest_key_suffix_decides [OF i k1 before, of "lit ''Other''"] s a b by blast
qed

theorem no_extension_uses_wildcard_witness:
  "46 \<notin> set (name [lit ''dl'', lit ''README''])
   \<and> extension_candidates ascii_ucd [lit ''dl'', lit ''README''] = [[]]
   \<and> decide_folder ascii_ucd [lit ''dl'', lit ''README'']
         (build_extension_map ascii_ucd [(lit ''Plain'', [[]])]) (lit ''Other'') = lit ''Plain''
   \<and> decide_folder ascii_ucd [lit ''dl'', lit ''README'']
         (build_extension_map ascii_ucd [(lit ''Documents'', [lit ''pdf''])]) (lit ''Other'')
       = lit ''Other''"
proof -
  let ?p = "[lit ''dl'', lit ''README'']"
  have a: "46 \<notin> set (name ?p)" by (simp add: name_def lit_def)
  have b: "build_extension_map ascii_ucd [(lit ''Plain'', [[]])] [] = Some (lit ''Plain'')"
    by (simp add: build_extension_map_def string_eval)
  have c: "build_extension_map ascii_ucd [(lit ''Documents'', [lit ''pdf''])] [] = None"
    by (simp add: build_extension_map_def string_eval)
  show ?thesis
    using no_extension_uses_wildcard
            [OF a, of ascii_ucd "build_extension_map ascii_ucd [(lit ''Plain'', [[]])]" "lit ''Other''"]
          no_extension_uses_wildcard
            [OF a, of ascii_ucd "build_extension_map ascii_ucd [(lit ''Documents'', [lit ''pdf''])]"
               "lit ''Other''"]
          a b c
    by simp
qed

theorem last_writer_wins_witness:
  "normalize_extension ascii_ucd (lit ''jpg'') = normalize_extension ascii_ucd (lit '' .JPG'')
   \<and> build_extension_map ascii_ucd
         [(lit ''Images'', [lit ''jpg'', lit ''png'']), (lit ''Photos'', [lit '' .JPG'']),
          (lit ''Documents'', [lit ''pdf''])]
         (lit ''.jpg'') = Some (lit ''Photos'')"
proof -
  have n: "normalize_extension ascii_ucd (lit '' .JPG'') = lit ''.jpg''"
    "normalize_extension ascii_ucd (lit ''jpg'') = lit ''.jpg''"
    "normalize_extension ascii_ucd (lit ''pdf'') = lit ''.pdf''"
    by (simp_all add: string_eval)
  have neq: "lit ''.jpg'' \<noteq> lit ''.pdf''" by (simp add: lit_def)
  have later:
    "\<forall>(f, es) \<in> set [(lit ''Documents'', [lit ''pdf''])].
        normalize_extension ascii_ucd (lit '' .JPG'') \<notin> normalize_extension ascii_ucd ` set es"
    using neq by (simp add: n)
  have "build_extension_map ascii_ucd
          ([(lit ''Images'', [lit ''jpg'', lit ''png''])] @ (lit ''Photos'', [lit '' .JPG''])
             # [(lit ''Documents'', [lit ''pdf''])])
          (normalize_extension ascii_ucd (lit '' .JPG'')) = Some (lit ''Photos'')"
    by (rule last_writer_wins [OF refl _ later]) simp
  then show ?thesis by (simp add: n)
qed

section \<open>Properties of the settling filter\<close>

lemma organize_file_skipped:
  "should_skip u w path config = Inr True \<Longrightarrow>
     organize_file u w path config ext_map = Some (Inr None, w)"
  by (simp add: organize_file_def)

text \<open>
  Claim C6. For a file that passes the other rules of the settling filter (its name is not
  in the skip set, the hidden-file rule does not apply, its extension is not transient,
  it is a regular file), the filter answers exactly whether the time since the last
  modification is strictly less than the minimum age; when it is, the mover returns
  nothing and leaves the state as it is.
\<close>

theorem settling_age_rule:
  assumes "name path \<notin> SKIP_NAMES"
      and "\<not> (ignore_hidden config \<and> startswith (name path) (lit ''.''))"
      and "lower u (suffix path) \<notin> TRANSIENT_EXTENSIONS"
      and "nodes w path = Some (File t)"
  shows "should_skip u w path config = Inr (now w - t < min_age_seconds config)
       \<and> (now w - t < min_age_seconds config \<longrightarrow>
            organize_file u w path config ext_map = Some (Inr None, w))"
proof -
  have s: "should_skip u w path config = Inr (now w - t < min_age_seconds config)"
    using assms by (auto simp: should_skip_def is_file_def stat_mtime_def)
  then show ?thesis by (simp add: organize_file_skipped)
qed

section \<open>Properties of the destination resolver\<close>

lemma str_nonempty: "str n \<noteq> []"
  by (subst str.simps) simp

lemma str_no_slash: "47 \<notin> set (str n)"
proof (induction n rule: str.induct)
  case (1 n)
  show ?case
  proof (cases "n < 10")
    case True
    then show ?thesis by (subst str.simps) simp
  next
    case False
    have "47 \<notin> set (str (n div 10))" using False by (rule "1.IH")
    then show ?thesis using False by (subst str.simps) simp
  qed
qed

lemma str_inject: "str a = str b \<Longrightarrow> a = b"
proof (induction a arbitrary: b rule: str.induct)
  case (1 a)
  show ?case
  proof (cases "a < 10")
    case small_a: True
    then have sa: "str a = [48 + a]" by (subst str.simps) simp
    show ?thesis
    proof (cases "b < 10")
      case True
      then have "str b = [48 + b]" by (subst str.simps) simp
      with sa "1.prems" show ?thesis by simp
    next
      case False
      then have "str b = str (b div 10) @ [48 + b mod 10]" by (subst str.simps) simp
      with sa "1.prems" have "str (b div 10) = []" by simp
      then show ?thesis using str_nonempty by blast
    qed
  next
    case big_a: False
    then have sa: "str a = str (a div 10) @ [48 + a mod 10]" by (subst str.simps) simp
    show ?thesis
    proof (cases "b < 10")
      case True
      then have "str b = [48 + b]" by (subst str.simps) simp
      with sa "1.prems" have "str (a div 10) = []" by simp
      then show ?thesis using str_nonempty by blast
    next
      case False
      then have "str b = str (b div 10) @ [48 + b mod 10]" by (subst str.simps) simp
      with sa "1.prems" have e: "str (a div 10) = str (b div 10)" and m: "a mod 10 = b mod 10"
        by simp_all
      from "1.IH"[OF big_a e] have "a div 10 = b div 10" .
      with m show ?thesis by (metis div_mult_mod_eq)
    qed
  qed
qed

lemma in_set_tl: "x \<in> set (tl xs) \<Longrightarrow> x \<in> set xs"
  by (cases xs) auto

lemma split_on_parts: "x \<in> set (split_on c s) \<Longrightarrow> c \<notin> set x"
proof (induction s arbitrary: x)
  case Nil
  then show ?case by simp
next
  case (Cons a s)
  have ne: "split_on c s \<noteq> []" by (cases s) auto
  show ?case
  proof (cases "a = c")
    case True
    with Cons show ?thesis by auto
  next
    case False
    with Cons.prems have "x = a # hd (split_on c s) \<or> x \<in> set (tl (split_on c s))" by simp
    then show ?thesis
    proof
      assume "x = a # hd (split_on c s)"
      moreover have "c \<notin> set (hd (split_on c s))" using ne by (intro Cons.IH) simp
      ultimately show ?thesis using False by simp
    next
      assume "x \<in> set (tl (split_on c s))"
      then have "x \<in> set (split_on c s)" by (rule in_set_tl)
      then show ?thesis by (rule Cons.IH)
    qed
  qed
qed

lemma split_on_chars: "x \<in> set (split_on c s) \<Longrightarrow> set x \<subseteq> set s"
proof (induction s arbitrary: x)
  case Nil
  then show ?case by simp
next
  case (Cons a s)
  have ne: "split_on c s \<noteq> []" by (cases s) auto
  show ?case
  proof (cases "a = c")
    case True
    with Cons show ?thesis by auto
  next
    case False
    with Cons.prems have "x = a # hd (split_on c s) \<or> x \<in> set (tl (split_on c s))" by simp
    then show ?thesis
    proof
      assume x: "x = a # hd (split_on c s)"
      have "set (hd (split_on c s)) \<subseteq> set s" using ne by (intro Cons.IH) simp
      with x show ?thesis by auto
    next
      assume "x \<in> set (tl (split_on c s))"
      then have "x \<in> set (split_on c s)" by (rule in_set_tl)
      then have "set x \<subseteq> set s" by (rule Cons.IH)
      then show ?thesis by auto
    qed
  qed
qed

lemma joinpath_part:
  \<comment> \<open>Joining one proper part: no separator in it, not empty, not the dot.\<close>
  assumes "47 \<notin> set n" and "n \<noteq> []" and "n \<noteq> lit ''.''"
  shows "joinpath d n = d @ [n]"
proof -
  have "take (Suc 0) n \<noteq> [47]" using assms(1,2) by (cases n) auto
  then show ?thesis
    using assms by (simp add: joinpath_def split_on_no_sep startswith_def lit_def)
qed

lemma name_Path_no_slash: "47 \<notin> set (name (Path f))"
proof -
  let ?parts = "filter (\<lambda>x. x \<noteq> [] \<and> x \<noteq> lit ''.'') (split_on 47 f)"
  have parts: "\<And>x. x \<in> set ?parts \<Longrightarrow> 47 \<notin> set x"
    using split_on_parts by auto
  show ?thesis
  proof (cases "?parts = []")
    case True
    then show ?thesis by (auto simp: Path_def joinpath_def name_def Let_def)
  next
    case False
    then have "last ?parts \<in> set ?parts" by (rule last_in_set)
    then have "47 \<notin> set (last ?parts)" by (rule parts)
    then show ?thesis
      using False by (auto simp: Path_def joinpath_def name_def Let_def)
  qed
qed

lemma stem_chars: "set (stem p) \<subseteq> set (name p)"
  by (auto simp: stem_def Let_def dest: in_set_takeD)

lemma suffixes_chars: "set (concat (suffixes p)) \<subseteq> insert 46 (set (name p))"
proof -
  let ?d = "dropWhile (\<lambda>c. c = 46) (name p)"
  have "\<And>x. x \<in> set (tl (split_on 46 ?d)) \<Longrightarrow> set x \<subseteq> set (name p)"
  proof -
    fix x assume "x \<in> set (tl (split_on 46 ?d))"
    then have "x \<in> set (split_on 46 ?d)" by (rule in_set_tl)
    then have "set x \<subseteq> set ?d" by (rule split_on_chars)
    also have "\<dots> \<subseteq> set (name p)" by (rule set_dropWhileD[THEN subsetI])
    finally show "set x \<subseteq> set (name p)" .
  qed
  then show ?thesis by (auto simp: suffixes_def lit_def)
qed

lemma counter_name_part:
  \<comment> \<open>The names that the resolver probes are proper parts.\<close>
  fixes f :: str
  defines "n k \<equiv> stem (Path f) @ lit ''-'' @ str k @ concat (suffixes (Path f))"
  shows "47 \<notin> set (n k) \<and> n k \<noteq> [] \<and> n k \<noteq> lit ''.''"
proof -
  have "47 \<notin> set (stem (Path f))"
    using stem_chars[of "Path f"] name_Path_no_slash[of f] by auto
  moreover have "47 \<notin> set (concat (suffixes (Path f)))"
    using suffixes_chars[of "Path f"] name_Path_no_slash[of f] by auto
  ultimately have a: "47 \<notin> set (n k)"
    using str_no_slash[of k] by (auto simp: n_def lit_def)
  have m: "45 \<in> set (n k)" by (simp add: n_def lit_def)
  then have b: "n k \<noteq> []" by auto
  have c: "n k \<noteq> lit ''.''"
  proof
    assume "n k = lit ''.''"
    with m show False by (simp add: lit_def)
  qed
  from a b c show ?thesis by blast
qed

lemma counter_path:
  "joinpath d (stem (Path f) @ lit ''-'' @ str k @ concat (suffixes (Path f)))
     = d @ [stem (Path f) @ lit ''-'' @ str k @ concat (suffixes (Path f))]"
  using counter_name_part[of f k] by (intro joinpath_part) simp_all

lemma counter_path_inject:
  assumes "joinpath d (stem (Path f) @ lit ''-'' @ str a @ concat (suffixes (Path f)))
         = joinpath d (stem (Path f) @ lit ''-'' @ str b @ concat (suffixes (Path f)))"
  shows "a = b"
proof -
  from assms have "str a = str b" by (simp add: counter_path)
  then show ?thesis by (rule str_inject)
qed

lemma probe_finds:
  assumes "\<not> path_exists w (joinpath d (st @ lit ''-'' @ str k @ sf))"
      and "\<forall>j. i \<le> j \<and> j < k \<longrightarrow> path_exists w (joinpath d (st @ lit ''-'' @ str j @ sf))"
      and "i \<le> k"
  shows "probe w d st sf i = Some (joinpath d (st @ lit ''-'' @ str k @ sf))"
  using assms
proof (induction "k - i" arbitrary: i)
  case 0
  then have "i = k" by simp
  with "0.prems"(1) show ?case by (subst probe.simps) simp
next
  case (Suc m)
  then have lt: "i < k" by simp
  with Suc.prems(2) have ex: "path_exists w (joinpath d (st @ lit ''-'' @ str i @ sf))" by simp
  have "probe w d st sf (i + 1) = Some (joinpath d (st @ lit ''-'' @ str k @ sf))"
  proof (rule Suc.hyps(1))
    show "m = k - (i + 1)" using Suc.hyps(2) by simp
    show "\<not> path_exists w (joinpath d (st @ lit ''-'' @ str k @ sf))" by (rule Suc.prems(1))
    show "\<forall>j. i + 1 \<le> j \<and> j < k \<longrightarrow> path_exists w (joinpath d (st @ lit ''-'' @ str j @ sf))"
      using Suc.prems(2) by simp
    show "i + 1 \<le> k" using lt by simp
  qed
  with ex show ?case by (subst probe.simps) simp
qed

lemma free_counter_exists:
  assumes "finite (dom (nodes w))"
  shows "\<exists>k\<ge>1. \<not> path_exists w
           (joinpath d (stem (Path f) @ lit ''-'' @ str k @ concat (suffixes (Path f))))"
proof (rule ccontr)
  let ?c = "\<lambda>k. joinpath d (stem (Path f) @ lit ''-'' @ str k @ concat (suffixes (Path f)))"
  assume "\<not> ?thesis"
  then have all: "\<And>k. 1 \<le> k \<Longrightarrow> ?c k \<in> dom (nodes w)"
    by (auto simp: path_exists_def)
  have inj: "inj_on ?c {1..}"
    by (rule inj_onI) (rule counter_path_inject)
  have "?c ` {1..} \<subseteq> dom (nodes w)" using all by auto
  then have "finite (?c ` {1..})" using assms by (rule finite_subset)
  then have "finite {1::nat..}" using inj by (rule finite_imageD)
  then show False by (simp add: infinite_Ici)
qed

lemma resolve_destination_free:
  "\<not> path_exists w (joinpath d f) \<Longrightarrow> resolve_destination w d f = Some (joinpath d f)"
  by (simp add: resolve_destination_def)

text \<open>
  Claim C9, as amended. The collision counter has no upper bound and the resolver has no
  error to fail with: whenever the desired path exists, and only finitely many paths
  exist, the resolver returns the path of the first counter, from 1 on, whose path does
  not exist, however large that counter is.
\<close>

theorem resolver_returns_first_free_counter:
  assumes "finite (dom (nodes w))"
      and "path_exists w (joinpath d f)"
  shows "\<exists>k\<ge>1.
           resolve_destination w d f
             = Some (joinpath d (stem (Path f) @ lit ''-'' @ str k @ concat (suffixes (Path f))))
           \<and> \<not> path_exists w
                 (joinpath d (stem (Path f) @ lit ''-'' @ str k @ concat (suffixes (Path f))))
           \<and> (\<forall>j. 1 \<le> j \<and> j < k \<longrightarrow>
                 path_exists w
                   (joinpath d (stem (Path f) @ lit ''-'' @ str j @ concat (suffixes (Path f)))))"
proof -
  let ?c = "\<lambda>k. joinpath d (stem (Path f) @ lit ''-'' @ str k @ concat (suffixes (Path f)))"
  let ?free = "\<lambda>k. 1 \<le> k \<and> \<not> path_exists w (?c k)"
  define k where "k = (LEAST k. ?free k)"
  have ex: "\<exists>k. ?free k" using free_counter_exists[OF assms(1), of d f] by blast
  then have free: "?free k" unfolding k_def by (rule LeastI_ex)
  have least: "\<And>j. 1 \<le> j \<Longrightarrow> j < k \<Longrightarrow> path_exists w (?c j)"
    using not_less_Least[of _ ?free] unfolding k_def by blast
  have "probe w d (stem (Path f)) (concat (suffixes (Path f))) 1 = Some (?c k)"
    using free least by (intro probe_finds) auto
  then have "resolve_destination w d f = Some (?c k)"
    using assms(2) by (simp add: resolve_destination_def)
  with free least show ?thesis by blast
qed

lemmas state_eval = path_exists_def is_file_def is_dir_def stat_mtime_def

theorem settling_age_rule_witness:
  "name [lit ''/'', lit ''dl'', lit ''report.pdf''] \<notin> SKIP_NAMES
   \<and> \<not> (ignore_hidden example_config
          \<and> startswith (name [lit ''/'', lit ''dl'', lit ''report.pdf'']) (lit ''.''))
   \<and> lower ascii_ucd (suffix [lit ''/'', lit ''dl'', lit ''report.pdf'']) \<notin> TRANSIENT_EXTENSIONS
   \<and> should_skip ascii_ucd (one_file_state (lit ''report.pdf'') {} 102)
         [lit ''/'', lit ''dl'', lit ''report.pdf''] example_config = Inr True
   \<and> organize_file ascii_ucd (one_file_state (lit ''report.pdf'') {} 102)
         [lit ''/'', lit ''dl'', lit ''report.pdf''] example_config example_index
       = Some (Inr None, one_file_state (lit ''report.pdf'') {} 102)
   \<and> should_skip ascii_ucd (one_file_state (lit ''report.pdf'') {} 103)
         [lit ''/'', lit ''dl'', lit ''report.pdf''] example_config = Inr False"
proof -
  let ?p = "[lit ''/'', lit ''dl'', lit ''report.pdf'']"
  have n: "name ?p = lit ''report.pdf''" by (simp add: name_def lit_def)
  have a: "name ?p \<notin> SKIP_NAMES" unfolding n by (simp add: SKIP_NAMES_def lit_def)
  have b: "\<not> (ignore_hidden example_config \<and> startswith (name ?p) (lit ''.''))"
    unfolding n by (simp add: startswith_def lit_def)
  have s: "suffix ?p = lit ''.pdf''" unfolding suffix_def n by (simp add: rfind_def lit_def)
  have c: "lower ascii_ucd (suffix ?p) \<notin> TRANSIENT_EXTENSIONS"
    unfolding s by (simp add: TRANSIENT_EXTENSIONS_def string_eval)
  have d: "\<And>t. nodes (one_file_state (lit ''report.pdf'') {} t) ?p = Some (File 100)"
    by (simp add: one_file_state_def lit_def)
  have m: "min_age_seconds example_config = 3" by (simp add: example_config_def)
  have t: "\<And>t. now (one_file_state (lit ''report.pdf'') {} t) = t"
    by (simp add: one_file_state_def)
  show ?thesis
    using settling_age_rule [OF a b c d, of 102 example_index]
          settling_age_rule [OF a b c d, of 103 example_index] a b c
    by (simp add: m t)
qed

section \<open>Examples of the destination resolver\<close>

lemma photo_parts:
  "stem (Path (lit ''photo.jpg'')) = lit ''photo''"
  "concat (suffixes (Path (lit ''photo.jpg''))) = lit ''.jpg''"
  "joinpath [lit ''Images''] (lit ''photo.jpg'') = [lit ''Images'', lit ''photo.jpg'']"
  by (simp_all add: path_eval startswith_def lit_def)

lemma photo_counter_path:
  "joinpath [lit ''Images''] (lit ''photo'' @ lit ''-'' @ str k @ lit ''.jpg'')
     = [lit ''Images'', lit ''photo-'' @ str k @ lit ''.jpg'']"
  using counter_path[of "[lit ''Images'']" "lit ''photo.jpg''" k]
  by (simp add: photo_parts) (simp add: lit_def)

lemma crowded_exists:
  "path_exists (crowded n) [lit ''Images'', lit ''photo-'' @ str k @ lit ''.jpg'']
     \<longleftrightarrow> 1 \<le> k \<and> k \<le> n"
proof -
  have a: "[lit ''Images'', lit ''photo-'' @ str k @ lit ''.jpg''] \<noteq> [lit ''Images'']" by simp
  have b: "lit ''photo-'' @ str k @ lit ''.jpg'' \<noteq> lit ''photo.jpg''" by (simp add: lit_def)
  have c: "\<And>j. (lit ''photo-'' @ str k @ lit ''.jpg'' = lit ''photo-'' @ str j @ lit ''.jpg'')
             = (k = j)"
    using str_inject by auto
  show ?thesis
    unfolding path_exists_def crowded_def using b by (auto simp: c dest: str_inject)
qed

lemma resolve_crowded:
  "resolve_destination (crowded n) [lit ''Images''] (lit ''photo.jpg'')
     = Some [lit ''Images'', lit ''photo-'' @ str (n + 1) @ lit ''.jpg'']"
proof -
  have e: "path_exists (crowded n) [lit ''Images'', lit ''photo.jpg'']"
    by (simp add: path_exists_def crowded_def lit_def)
  have "probe (crowded n) [lit ''Images''] (lit ''photo'') (lit ''.jpg'') 1
          = Some (joinpath [lit ''Images''] (lit ''photo'' @ lit ''-'' @ str (n + 1) @ lit ''.jpg''))"
    by (rule probe_finds) (simp_all add: photo_counter_path crowded_exists)
  then show ?thesis
    using e by (simp add: resolve_destination_def photo_parts photo_counter_path)
qed

lemma crowded_finite: "finite (dom (nodes (crowded n)))"
proof -
  have "dom (nodes (crowded n))
          \<subseteq> {[lit ''Images''], [lit ''Images'', lit ''photo.jpg'']}
            \<union> (\<lambda>k. [lit ''Images'', lit ''photo-'' @ str k @ lit ''.jpg'']) ` {1..n}"
    by (auto simp: crowded_def dom_def split: if_splits)
  then show ?thesis by (rule finite_subset) simp
qed

lemma str_examples:
  "str 1 = lit ''1''" "str 2 = lit ''2''" "str 100001 = lit ''100001''"
  "str (Suc 0) = lit ''1''" "str (Suc (Suc 0)) = lit ''2''"
  by (simp_all add: str.simps lit_def)

lemma collision_law_example:
  \<comment> \<open>\<open>photo.jpg\<close> exists: \<open>photo-1.jpg\<close>; that exists too: \<open>photo-2.jpg\<close>.\<close>
  "resolve_destination (crowded 0) [lit ''Images''] (lit ''photo.jpg'')
     = Some [lit ''Images'', lit ''photo-1.jpg'']"
  "resolve_destination (crowded 1) [lit ''Images''] (lit ''photo.jpg'')
     = Some [lit ''Images'', lit ''photo-2.jpg'']"
  using resolve_crowded[of 0] resolve_crowded[of 1] by (simp_all add: str_examples lit_def)

theorem resolver_returns_first_free_counter_counterexample:
  "finite (dom (nodes (crowded 100000)))
   \<and> resolve_destination (crowded 100000) [lit ''Images''] (lit ''photo.jpg'')
       = Some [lit ''Images'', lit ''photo-100001.jpg'']"
  using resolve_crowded[of 100000] crowded_finite[of 100000]
  by (simp add: str_examples lit_def)

theorem resolver_returns_first_free_counter_witness:
  "finite (dom (nodes (crowded 2)))
   \<and> path_exists (crowded 2) (joinpath [lit ''Images''] (lit ''photo.jpg''))
   \<and> (\<exists>k\<ge>1. resolve_destination (crowded 2) [lit ''Images''] (lit ''photo.jpg'')
               = Some (joinpath [lit ''Images'']
                         (stem (Path (lit ''photo.jpg'')) @ lit ''-'' @ str k
                            @ concat (suffixes (Path (lit ''photo.jpg''))))))
   \<and> resolve_destination (crowded 2) [lit ''Images''] (lit ''photo.jpg'')
       = Some [lit ''Images'', lit ''photo-3.jpg'']"
proof -
  have e: "path_exists (crowded 2) (joinpath [lit ''Images''] (lit ''photo.jpg''))"
    by (simp add: photo_parts path_exists_def crowded_def)
  have "str 3 = lit ''3''" by (simp add: str.simps lit_def)
  then have r: "resolve_destination (crowded 2) [lit ''Images''] (lit ''photo.jpg'')
          = Some [lit ''Images'', lit ''photo-3.jpg'']"
    using resolve_crowded[of 2] by (simp add: lit_def)
  from resolver_returns_first_free_counter [OF crowded_finite e]
  have "\<exists>k\<ge>1. resolve_destination (crowded 2) [lit ''Images''] (lit ''photo.jpg'')
               = Some (joinpath [lit ''Images'']
                         (stem (Path (lit ''photo.jpg'')) @ lit ''-'' @ str k
                            @ concat (suffixes (Path (lit ''photo.jpg'')))))"
    by blast
  with crowded_finite[of 2] e r show ?thesis by blast
qed

text \<open>
  Claim C2, at the input where the code leaves it. The resolver takes the stem from
  \<open>Path.stem\<close>, which drops the last suffix only, and the extension from all the
  suffixes: for \<open>a.tar.gz\<close> the stem is \<open>a.tar\<close> and the extension \<open>.tar.gz\<close>, so the
  first name it probes is \<open>a.tar-1.tar.gz\<close>, not \<open>a-1.tar.gz\<close>.
\<close>

theorem compound_name_collision:
  "path_exists archive_state
     (joinpath [lit ''/'', lit ''dl'', lit ''Archives''] (lit ''a.tar.gz''))
   \<and> stem (Path (lit ''a.tar.gz'')) = lit ''a.tar''
   \<and> concat (suffixes (Path (lit ''a.tar.gz''))) = lit ''.tar.gz''
   \<and> resolve_destination archive_state [lit ''/'', lit ''dl'', lit ''Archives''] (lit ''a.tar.gz'')
       = Some [lit ''/'', lit ''dl'', lit ''Archives'', lit ''a.tar-1.tar.gz'']"
proof -
  have p: "stem (Path (lit ''a.tar.gz'')) = lit ''a.tar''"
    "concat (suffixes (Path (lit ''a.tar.gz''))) = lit ''.tar.gz''"
    "joinpath [lit ''/'', lit ''dl'', lit ''Archives''] (lit ''a.tar.gz'')
       = [lit ''/'', lit ''dl'', lit ''Archives'', lit ''a.tar.gz'']"
    by (simp_all add: path_eval startswith_def lit_def)
  have c: "joinpath [lit ''/'', lit ''dl'', lit ''Archives'']
             (lit ''a.tar'' @ lit ''-'' @ str (Suc 0) @ lit ''.tar.gz'')
           = [lit ''/'', lit ''dl'', lit ''Archives'', lit ''a.tar-1.tar.gz'']"
    using counter_path[of "[lit ''/'', lit ''dl'', lit ''Archives'']" "lit ''a.tar.gz''" "Suc 0"]
    by (simp add: p) (simp add: str_examples lit_def)
  have e: "path_exists archive_state [lit ''/'', lit ''dl'', lit ''Archives'', lit ''a.tar.gz'']"
    by (simp add: path_exists_def archive_state_def)
  have f: "\<not> path_exists archive_state
               [lit ''/'', lit ''dl'', lit ''Archives'', lit ''a.tar-1.tar.gz'']"
    by (simp add: path_exists_def archive_state_def lit_def)
  have "probe archive_state [lit ''/'', lit ''dl'', lit ''Archives''] (lit ''a.tar'')
          (lit ''.tar.gz'') 1
        = Some [lit ''/'', lit ''dl'', lit ''Archives'', lit ''a.tar-1.tar.gz'']"
    by (subst probe.simps) (simp add: c f)
  then show ?thesis using e by (simp add: resolve_destination_def p)
qed

section \<open>Properties of directory creation\<close>

lemma adds_directories_refl: "adds_directories w w"
  by (simp add: adds_directories_def)

lemma adds_directories_trans:
  assumes "adds_directories w w1" and "adds_directories w1 w2"
  shows "adds_directories w w2"
  unfolding adds_directories_def
proof (intro conjI allI impI)
  show "denied w2 = denied w" "now w2 = now w"
    using assms by (simp_all add: adds_directories_def)
  show "finite (dom (nodes w2))" if "finite (dom (nodes w))"
    using assms that by (simp add: adds_directories_def)
next
  fix q assume "nodes w q \<noteq> None"
  then show "nodes w2 q = nodes w q"
    using assms unfolding adds_directories_def by metis
next
  fix q assume "nodes w q = None"
  then show "nodes w2 q = None \<or> (\<exists>t. nodes w2 q = Some (Dir t))"
    using assms unfolding adds_directories_def by (metis option.distinct(1))
qed

lemma os_mkdir_adds: "os_mkdir w p = Inr w' \<Longrightarrow> adds_directories w w'"
  by (auto simp: os_mkdir_def adds_directories_def path_exists_def split: if_splits)

lemma mkdir_adds: "mkdir parents w p = (r, w') \<Longrightarrow> adds_directories w w'"
proof (induction parents w p arbitrary: r w' rule: mkdir.induct)
  case (1 parents w p)
  show ?case
  proof (cases "os_mkdir w p")
    case (Inr w1)
    with "1.prems" have "w' = w1" by (subst (asm) mkdir.simps) simp
    with Inr show ?thesis by (simp add: os_mkdir_adds)
  next
    case (Inl e)
    show ?thesis
    proof (cases "e = FileNotFoundError \<and> parents \<and> parent p \<noteq> p")
      case False
      with Inl "1.prems" have "w' = w"
        by (subst (asm) mkdir.simps) (auto split: if_splits)
      then show ?thesis by (simp add: adds_directories_refl)
    next
      case True
      obtain r1 w1 where m1: "mkdir True w (parent p) = (r1, w1)" by (cases "mkdir True w (parent p)")
      have a1: "adds_directories w w1"
        using "1.IH"(1)[OF Inl _ _ m1] True by simp
      show ?thesis
      proof (cases r1)
        case (Inl e1)
        with \<open>os_mkdir w p = Inl e\<close> True m1 "1.prems" have "w' = w1"
          by (subst (asm) mkdir.simps) simp
        with a1 show ?thesis by simp
      next
        case (Inr x)
        with \<open>os_mkdir w p = Inl e\<close> True m1 "1.prems" have m2: "mkdir False w1 p = (r, w')"
          by (subst (asm) mkdir.simps) simp
        have "adds_directories w1 w'"
          using "1.IH"(2)[OF \<open>os_mkdir w p = Inl e\<close> _ _ m1[symmetric] Inr m2] True by simp
        with a1 show ?thesis by (rule adds_directories_trans)
      qed
    qed
  qed
qed

lemma mkdir_in_directory:
  \<comment> \<open>One directory to create, in a directory that exists, and the system allows it.\<close>
  assumes "\<not> path_exists w p" and "is_dir w (parent p)" and "p \<notin> denied w"
  shows "mkdir parents w p = (Inr (), w\<lparr>nodes := (nodes w)(p \<mapsto> Dir (now w))\<rparr>)"
proof -
  have "path_exists w (parent p)"
    using assms(2) by (auto simp: is_dir_def path_exists_def split: option.splits)
  with assms have "os_mkdir w p = Inr (w\<lparr>nodes := (nodes w)(p \<mapsto> Dir (now w))\<rparr>)"
    by (simp add: os_mkdir_def)
  then show ?thesis by (subst mkdir.simps) simp
qed

lemma mkdir_refused:
  assumes "\<not> path_exists w p" and "is_dir w (parent p)" and "p \<in> denied w"
  shows "mkdir parents w p = (Inl PermissionError, w)"
proof -
  have "path_exists w (parent p)"
    using assms(2) by (auto simp: is_dir_def path_exists_def split: option.splits)
  with assms have "os_mkdir w p = Inl PermissionError"
    by (simp add: os_mkdir_def)
  moreover have "\<not> is_dir w p"
    using assms(1) by (simp add: is_dir_def path_exists_def)
  ultimately show ?thesis by (subst mkdir.simps) simp
qed

section \<open>Properties of the mover\<close>

lemma resolve_destination_cases:
  assumes "finite (dom (nodes w))"
  shows "(resolve_destination w d f = Some (joinpath d f) \<and> \<not> path_exists w (joinpath d f))
       \<or> (\<exists>k. resolve_destination w d f
                  = Some (joinpath d (stem (Path f) @ lit ''-'' @ str k @ concat (suffixes (Path f))))
               \<and> \<not> path_exists w
                     (joinpath d (stem (Path f) @ lit ''-'' @ str k @ concat (suffixes (Path f)))))"
proof (cases "path_exists w (joinpath d f)")
  case False
  then show ?thesis by (simp add: resolve_destination_free)
next
  case True
  let ?c = "\<lambda>k. joinpath d (stem (Path f) @ lit ''-'' @ str k @ concat (suffixes (Path f)))"
  let ?free = "\<lambda>k. 1 \<le> k \<and> \<not> path_exists w (?c k)"
  define k where "k = (LEAST k. ?free k)"
  have ex: "\<exists>k. ?free k" using free_counter_exists[OF assms, of d f] by blast
  then have free: "?free k" unfolding k_def by (rule LeastI_ex)
  have least: "\<And>j. 1 \<le> j \<Longrightarrow> j < k \<Longrightarrow> path_exists w (?c j)"
    using not_less_Least[of _ ?free] unfolding k_def by blast
  have "probe w d (stem (Path f)) (concat (suffixes (Path f))) 1 = Some (?c k)"
    using free least by (intro probe_finds) auto
  then have "resolve_destination w d f = Some (?c k)"
    using True by (simp add: resolve_destination_def)
  with free show ?thesis by blast
qed

lemma resolve_destination_total:
  assumes "finite (dom (nodes w))"
  shows "\<exists>dest. resolve_destination w d f = Some dest \<and> \<not> path_exists w dest"
  using resolve_destination_cases[OF assms, of d f] by blast

lemma resolve_destination_entry:
  \<comment> \<open>The destination of a proper file name is a new entry of the directory.\<close>
  assumes "finite (dom (nodes w))"
      and "47 \<notin> set f" and "f \<noteq> []" and "f \<noteq> lit ''.''"
  shows "\<exists>n. resolve_destination w d f = Some (d @ [n]) \<and> \<not> path_exists w (d @ [n])
            \<and> 47 \<notin> set n \<and> (\<not> path_exists w (d @ [f]) \<longrightarrow> n = f)"
proof (cases "path_exists w (joinpath d f)")
  case False
  then have "resolve_destination w d f = Some (d @ [f])" "\<not> path_exists w (d @ [f])"
    using assms(2-4) by (simp_all add: resolve_destination_free joinpath_part)
  with assms(2) show ?thesis by blast
next
  case True
  then have e: "path_exists w (d @ [f])" using assms(2-4) by (simp add: joinpath_part)
  from True resolve_destination_cases[OF assms(1), of d f]
  obtain k where "resolve_destination w d f
                    = Some (d @ [stem (Path f) @ lit ''-'' @ str k @ concat (suffixes (Path f))])"
    and "\<not> path_exists w (d @ [stem (Path f) @ lit ''-'' @ str k @ concat (suffixes (Path f))])"
    by (auto simp: counter_path)
  with e counter_name_part[of f k] show ?thesis by blast
qed

lemma parent_entry: "47 \<notin> set n \<Longrightarrow> parent (d @ [n]) = d"
  by (auto simp: parent_def lit_def)

lemma should_skip_no_error: "should_skip u w path config \<noteq> Inl e"
  by (auto simp: should_skip_def stat_mtime_def is_file_def split: option.splits node.splits)

lemma only_mkdir_raises:
  \<comment> \<open>The one exception that reaches the caller of the mover is one of \<open>mkdir\<close>.\<close>
  assumes "organize_file u w path config ext_map = Some (Inl e, w')"
  shows "\<not> path_exists w
             (joinpath (downloads_dir config) (decide_folder u path ext_map (other_folder config)))
       \<and> mkdir True w
             (joinpath (downloads_dir config) (decide_folder u path ext_map (other_folder config)))
           = (Inl e, w')"
proof -
  let ?d = "joinpath (downloads_dir config) (decide_folder u path ext_map (other_folder config))"
  obtain r1 w1 where m: "mkdir True w ?d = (r1, w1)" by (cases "mkdir True w ?d")
  show ?thesis
    using assms m should_skip_no_error[of u w path config]
    by (auto simp: organize_file_def Let_def
             split: sum.splits bool.splits if_splits option.splits prod.splits)
qed

lemma shutil_move_renames:
  \<comment> \<open>A regular file, a free destination in a directory, and nothing refused: a rename.\<close>
  assumes "nodes w src = Some (File t)" and "\<not> path_exists w dst" and "is_dir w (parent dst)"
      and "src \<notin> denied w" and "dst \<notin> denied w"
  shows "shutil_move w src dst = (Inr dst, w\<lparr>nodes := (nodes w)(src := None, dst \<mapsto> File t)\<rparr>)"
proof -
  have a: "\<not> is_dir w dst" using assms(2) by (simp add: is_dir_def path_exists_def)
  have b: "path_exists w (parent dst)"
    using assms(3) by (auto simp: is_dir_def path_exists_def split: option.splits)
  have "os_rename w src dst = Inr (w\<lparr>nodes := (nodes w)(src := None, dst \<mapsto> File t)\<rparr>)"
    using assms a b by (simp add: os_rename_def)
  then show ?thesis using a by (simp add: shutil_move_def)
qed

lemma adds_directories_files:
  "adds_directories w w' \<Longrightarrow> (nodes w' p = Some (File t)) = (nodes w p = Some (File t))"
  unfolding adds_directories_def
  by (metis node.distinct(1) option.distinct(1) option.inject)

lemma adds_directories_keeps:
  "adds_directories w w' \<Longrightarrow> path_exists w p \<Longrightarrow> nodes w' p = nodes w p"
  by (simp add: adds_directories_def path_exists_def)

lemma should_skip_dry_run:
  "should_skip u w path (config\<lparr>dry_run := b\<rparr>) = should_skip u w path config"
  by (simp add: should_skip_def Let_def split: sum.splits)

text \<open>
  Claim C3, as amended. In dry-run mode the mover returns, on every state with finitely
  many files, and it moves, creates, deletes and changes no file: the files of the state
  after the call are the files of the state before it, with their modification times, and
  every path that existed is as it was. What the call returns is what the call without
  dry-run mode returns on the same state, unless that one returns nothing (its move
  failed). The category directory, which the call may create, is left out.
\<close>

theorem dry_run_moves_no_file:
  assumes "dry_run config" and "finite (dom (nodes w))"
  shows "\<exists>r w'. organize_file u w path config ext_map = Some (r, w')
           \<and> (\<forall>p t. (nodes w' p = Some (File t)) = (nodes w p = Some (File t)))
           \<and> (\<forall>p. path_exists w p \<longrightarrow> nodes w' p = nodes w p)
           \<and> (\<exists>r2 w2. organize_file u w path (config\<lparr>dry_run := False\<rparr>) ext_map = Some (r2, w2)
                  \<and> (r2 = r \<or> r2 = Inr None))"
proof -
  let ?d = "joinpath (downloads_dir config) (decide_folder u path ext_map (other_folder config))"
  let ?real = "config\<lparr>dry_run := False\<rparr>"
  show ?thesis
  proof (cases "should_skip u w path config = Inr False")
    case False
    then consider e where "should_skip u w path config = Inl e"
      | "should_skip u w path config = Inr True"
      by (cases "should_skip u w path config") auto
    then show ?thesis
    proof cases
      case 1
      then show ?thesis by (simp add: should_skip_no_error)
    next
      case 2
      then have "organize_file u w path config ext_map = Some (Inr None, w)"
        "organize_file u w path ?real ext_map = Some (Inr None, w)"
        by (simp_all add: organize_file_def should_skip_dry_run)
      then show ?thesis by simp
    qed
  next
    case True
    obtain r1 w1 where m: "(if \<not> path_exists w ?d then mkdir True w ?d else (Inr (), w)) = (r1, w1)"
      by (cases "if \<not> path_exists w ?d then mkdir True w ?d else (Inr (), w)")
    have ad: "adds_directories w w1"
      using m by (auto simp: adds_directories_refl mkdir_adds split: if_splits)
    have frame: "\<forall>p t. (nodes w1 p = Some (File t)) = (nodes w p = Some (File t))"
      "\<forall>p. path_exists w p \<longrightarrow> nodes w1 p = nodes w p"
      using ad by (simp_all add: adds_directories_files adds_directories_keeps)
    show ?thesis
    proof (cases r1)
      case (Inl e)
      with True m have "organize_file u w path config ext_map = Some (Inl e, w1)"
        "organize_file u w path ?real ext_map = Some (Inl e, w1)"
        by (simp_all add: organize_file_def should_skip_dry_run)
      with frame show ?thesis by simp
    next
      case (Inr x)
      have "finite (dom (nodes w1))" using ad assms(2) by (simp add: adds_directories_def)
      then obtain dest where r: "resolve_destination w1 ?d (name path) = Some dest"
        using resolve_destination_total by blast
      show ?thesis
      proof (cases "dest = path")
        case same: True
        with True m Inr r have "organize_file u w path config ext_map = Some (Inr None, w1)"
          "organize_file u w path ?real ext_map = Some (Inr None, w1)"
          by (simp_all add: organize_file_def should_skip_dry_run)
        with frame show ?thesis by simp
      next
        case other: False
        with True m Inr r assms(1)
        have dry: "organize_file u w path config ext_map = Some (Inr (Some dest), w1)"
          by (simp add: organize_file_def)
        obtain r3 w3 where mv: "shutil_move w1 path dest = (r3, w3)"
          by (cases "shutil_move w1 path dest")
        have "organize_file u w path ?real ext_map
                = Some (case r3 of Inr d \<Rightarrow> Inr (Some dest) | Inl e \<Rightarrow> Inr None, w3)"
          using True m Inr r other mv
          by (simp add: organize_file_def should_skip_dry_run split: sum.splits)
        then have "\<exists>r2 w2. organize_file u w path ?real ext_map = Some (r2, w2)
                     \<and> (r2 = Inr (Some dest) \<or> r2 = Inr None)"
          by (cases r3) simp_all
        with dry frame show ?thesis by simp
      qed
    qed
  qed
qed

text \<open>
  Claim C7. A file whose name starts with a dot is skipped when the hidden-file policy is
  enabled, whatever its extension: the mover returns nothing and the state is as it was.
  When the policy is disabled the filter decides by the remaining rules alone, and a file
  that passes them is moved like any other: with dry-run mode off, nothing refused by the
  system, and the directory of the category of its extension present or to be created in
  a directory that is present, the file ends up in that directory, under its own name
  when that name is free there.
\<close>

theorem hidden_file_policy:
  fixes config :: "('t::{minus,ord}) Config"
  assumes "startswith (name path) (lit ''.'')"
    and "dest_dir = joinpath (downloads_dir config) (decide_folder u path ext_map (other_folder config))"
  shows "(ignore_hidden config \<longrightarrow>
            should_skip u w path config = Inr True
            \<and> organize_file u w path config ext_map = Some (Inr None, w))
       \<and> (\<not> ignore_hidden config \<and> name path \<notin> SKIP_NAMES
            \<and> lower u (suffix path) \<notin> TRANSIENT_EXTENSIONS \<and> nodes w path = Some (File t) \<longrightarrow>
            should_skip u w path config = Inr (now w - t < min_age_seconds config))
       \<and> (\<not> ignore_hidden config \<and> name path \<notin> SKIP_NAMES
            \<and> lower u (suffix path) \<notin> TRANSIENT_EXTENSIONS \<and> nodes w path = Some (File t)
            \<and> \<not> now w - t < min_age_seconds config
            \<and> \<not> dry_run config \<and> finite (dom (nodes w)) \<and> denied w = {}
            \<and> 47 \<notin> set (name path) \<and> name path \<noteq> lit ''.''
            \<and> (is_dir w dest_dir \<or> \<not> path_exists w dest_dir \<and> is_dir w (parent dest_dir)) \<longrightarrow>
            (\<exists>n w'. organize_file u w path config ext_map = Some (Inr (Some (dest_dir @ [n])), w')
                 \<and> nodes w' (dest_dir @ [n]) = Some (File t) \<and> nodes w' path = None
                 \<and> (\<not> path_exists w (dest_dir @ [name path]) \<longrightarrow> n = name path)))"
proof (intro conjI impI)
  assume "ignore_hidden config"
  with assms(1) show s: "should_skip u w path config = Inr True"
    by (simp add: should_skip_def)
  then show "organize_file u w path config ext_map = Some (Inr None, w)"
    by (rule organize_file_skipped)
next
  assume "\<not> ignore_hidden config \<and> name path \<notin> SKIP_NAMES
            \<and> lower u (suffix path) \<notin> TRANSIENT_EXTENSIONS \<and> nodes w path = Some (File t)"
  then show "should_skip u w path config = Inr (now w - t < min_age_seconds config)"
    by (auto simp: should_skip_def is_file_def stat_mtime_def)
next
  assume a: "\<not> ignore_hidden config \<and> name path \<notin> SKIP_NAMES
            \<and> lower u (suffix path) \<notin> TRANSIENT_EXTENSIONS \<and> nodes w path = Some (File t)
            \<and> \<not> now w - t < min_age_seconds config
            \<and> \<not> dry_run config \<and> finite (dom (nodes w)) \<and> denied w = {}
            \<and> 47 \<notin> set (name path) \<and> name path \<noteq> lit ''.''
            \<and> (is_dir w dest_dir \<or> \<not> path_exists w dest_dir \<and> is_dir w (parent dest_dir))"
  then have src: "nodes w path = Some (File t)" by simp
  have skip: "should_skip u w path config = Inr False"
    using a by (auto simp: should_skip_def is_file_def stat_mtime_def)
  have nonempty: "name path \<noteq> []" using assms(1) by (auto simp: startswith_def lit_def)
  have "\<exists>w1. (if \<not> path_exists w dest_dir then mkdir True w dest_dir else (Inr (), w)) = (Inr (), w1)
            \<and> is_dir w1 dest_dir \<and> denied w1 = {} \<and> finite (dom (nodes w1))
            \<and> (\<forall>q. q \<noteq> dest_dir \<longrightarrow> nodes w1 q = nodes w q)"
  proof (cases "is_dir w dest_dir")
    case True
    then have "path_exists w dest_dir"
      by (auto simp: is_dir_def path_exists_def split: option.splits)
    with True a show ?thesis by simp
  next
    case False
    with a have n: "\<not> path_exists w dest_dir" and p: "is_dir w (parent dest_dir)" by auto
    have "mkdir True w dest_dir = (Inr (), w\<lparr>nodes := (nodes w)(dest_dir \<mapsto> Dir (now w))\<rparr>)"
      using n p a by (intro mkdir_in_directory) auto
    with n a show ?thesis by (simp add: is_dir_def)
  qed
  then obtain w1 where
    m: "(if \<not> path_exists w dest_dir then mkdir True w dest_dir else (Inr (), w)) = (Inr (), w1)"
    and dir: "is_dir w1 dest_dir" and den: "denied w1 = {}" and fin: "finite (dom (nodes w1))"
    and same: "\<forall>q. q \<noteq> dest_dir \<longrightarrow> nodes w1 q = nodes w q"
    by blast
  have "path \<noteq> dest_dir"
    using src a by (auto simp: is_dir_def path_exists_def)
  with same src have src1: "nodes w1 path = Some (File t)" by simp
  obtain n where r: "resolve_destination w1 dest_dir (name path) = Some (dest_dir @ [n])"
    and free: "\<not> path_exists w1 (dest_dir @ [n])" and part: "47 \<notin> set n"
    and own: "\<not> path_exists w1 (dest_dir @ [name path]) \<longrightarrow> n = name path"
    using resolve_destination_entry[OF fin, of "name path" dest_dir] a nonempty by blast
  have ne: "dest_dir @ [n] \<noteq> path" using free src1 by (auto simp: path_exists_def)
  have mv: "shutil_move w1 path (dest_dir @ [n])
              = (Inr (dest_dir @ [n]),
                 w1\<lparr>nodes := (nodes w1)(path := None, dest_dir @ [n] \<mapsto> File t)\<rparr>)"
    using src1 free dir den part by (intro shutil_move_renames) (simp_all add: parent_entry)
  have "organize_file u w path config ext_map
          = Some (Inr (Some (dest_dir @ [n])),
                  w1\<lparr>nodes := (nodes w1)(path := None, dest_dir @ [n] \<mapsto> File t)\<rparr>)"
    using skip m r ne mv a unfolding assms(2) organize_file_def by (simp add: Let_def)
  moreover have "\<not> path_exists w (dest_dir @ [name path]) \<longrightarrow> n = name path"
    using own same by (simp add: path_exists_def)
  ultimately show "\<exists>n w'. organize_file u w path config ext_map = Some (Inr (Some (dest_dir @ [n])), w')
                 \<and> nodes w' (dest_dir @ [n]) = Some (File t) \<and> nodes w' path = None
                 \<and> (\<not> path_exists w (dest_dir @ [name path]) \<longrightarrow> n = name path)"
    using ne by auto
qed

end
